theory Spec2Isabelle
  imports Main "HOL-Library.DAList"
begin

section \<open>Data model\<close>

text \<open>
  Modelled from the spec: the declarations of \<open>S3Object\<close>, \<open>S3Prefix\<close> and
  \<open>CacheEntry\<close> live in \<open>types.ts\<close>, which is not among the sources. The fields are
  the ones the data model lists (ObjectEntry, PrefixEntry, CacheEntry) and the ones
  the code reads and writes. Timestamps are milliseconds, as \<open>Date.now()\<close> returns them.
\<close>

record S3Object =
  key :: string
  size_bytes :: nat
  lastModified :: "int option"
  etag :: "string option"
  storageClass :: "string option"

record S3Prefix =
  prefix :: string

text \<open>
  The result of \<open>listObjects\<close> and a cache entry share four fields; the renderers of
  the tree take either (their parameter is typed \<open>any\<close>), so the cache entry is the
  listing result extended by \<open>lastFetched\<close>.
\<close>

record ListObjectsResult =
  objects :: "S3Object list"
  prefixes :: "S3Prefix list"
  isTruncated :: bool
  continuationToken :: "string option"

record CacheEntry = ListObjectsResult +
  lastFetched :: int

text \<open>
  JavaScript truthiness of an optional string: \<open>undefined\<close> and the empty string are
  falsy.
\<close>

definition truthy :: "string option \<Rightarrow> bool" where
  "truthy s = (case s of None \<Rightarrow> False | Some v \<Rightarrow> v \<noteq> [])"

text \<open>\<open>s || ""\<close> and \<open>s || undefined\<close> on strings.\<close>

definition or_empty :: "string option \<Rightarrow> string" where
  "or_empty s = (case s of None \<Rightarrow> [] | Some v \<Rightarrow> v)"

definition or_undefined :: "string \<Rightarrow> string option" where
  "or_undefined s = (if s = [] then None else Some s)"

section \<open>String helpers of the JavaScript runtime\<close>

definition startsWith :: "string \<Rightarrow> string \<Rightarrow> bool" where
  "startsWith s p = (take (length p) s = p)"

definition endsWith :: "string \<Rightarrow> string \<Rightarrow> bool" where
  "endsWith s p = (length p \<le> length s \<and> drop (length s - length p) s = p)"

text \<open>\<open>s.split(d)\<close> for a separator of one character: never the empty array.\<close>

fun split_str :: "string \<Rightarrow> char \<Rightarrow> string list" where
  "split_str [] d = [[]]"
| "split_str (c # cs) d =
     (if c = d then [] # split_str cs d
      else (c # hd (split_str cs d)) # tl (split_str cs d))"

fun join :: "string list \<Rightarrow> string \<Rightarrow> string" where
  "join [] d = []"
| "join [x] d = x"
| "join (x # y # ys) d = x @ d @ join (y # ys) d"

text \<open>\<open>arr.findIndex(p)\<close>: the index of the first match, or -1.\<close>

fun findIndex :: "('a \<Rightarrow> bool) \<Rightarrow> 'a list \<Rightarrow> int" where
  "findIndex P [] = - 1"
| "findIndex P (x # xs) =
     (if P x then 0
      else (let r = findIndex P xs in if r < 0 then - 1 else r + 1))"

text \<open>\<open>arr.filter((x, index, arr) => f(x, index, arr))\<close>.\<close>

definition filter_indexed :: "('a \<Rightarrow> nat \<Rightarrow> 'a list \<Rightarrow> bool) \<Rightarrow> 'a list \<Rightarrow> 'a list" where
  "filter_indexed f arr =
     map fst (filter (\<lambda>(x, i). f x i arr) (zip arr [0..<length arr]))"

section \<open>The listing cache (util/cache.ts)\<close>

text \<open>
  The map from key strings to entries of the class is an association list with distinct
  keys in insertion order; \<open>ttl\<close> is the constructor's argument. \<open>Date.now()\<close> is
  the parameter \<open>now\<close> of the operations that read the clock; times and the
  time-to-live are whole milliseconds.
\<close>

record S3Cache =
  cache :: "(string, CacheEntry) alist"
  ttl :: int

definition DEFAULT_TTL :: int where
  "DEFAULT_TTL = 5 * 60 * 1000"

definition new_S3Cache :: "int \<Rightarrow> S3Cache" where
  "new_S3Cache t = \<lparr>cache = DAList.empty, ttl = t\<rparr>"

definition getCacheKey :: "string \<Rightarrow> string option \<Rightarrow> string" where
  "getCacheKey bucket pfx = bucket @ '':'' @ or_empty pfx"

definition S3Cache_get ::
  "int \<Rightarrow> S3Cache \<Rightarrow> string \<Rightarrow> string option \<Rightarrow> CacheEntry option \<times> S3Cache" where
  "S3Cache_get now s bucket pfx =
     (let k = getCacheKey bucket pfx in
      case DAList.lookup (cache s) k of
        None \<Rightarrow> (None, s)
      | Some entry \<Rightarrow>
          if now - lastFetched entry > ttl s
          then (None, s\<lparr>cache := DAList.delete k (cache s)\<rparr>)
          else (Some entry, s))"

definition S3Cache_set ::
  "int \<Rightarrow> S3Cache \<Rightarrow> string \<Rightarrow> S3Object list \<Rightarrow> S3Prefix list \<Rightarrow> bool \<Rightarrow>
   string option \<Rightarrow> string option \<Rightarrow> S3Cache" where
  "S3Cache_set now s bucket objs prefs trunc tok pfx =
     (let k = getCacheKey bucket pfx in
      s\<lparr>cache := DAList.update k
            \<lparr>objects = objs, prefixes = prefs, isTruncated = trunc,
             continuationToken = tok, lastFetched = now\<rparr> (cache s)\<rparr>)"

definition S3Cache_invalidate :: "S3Cache \<Rightarrow> string \<Rightarrow> string option \<Rightarrow> S3Cache" where
  "S3Cache_invalidate s bucket pfx =
     (if truthy pfx then
        (let p = or_empty pfx;
             c1 = DAList.delete (getCacheKey bucket pfx) (cache s);
             prefixPath = (if endsWith p ''/'' then butlast p else p);
             parentParts = split_str prefixPath CHR ''/'';
             c2 = foldl (\<lambda>c i.
                     let parentPrefix = join (take i parentParts) ''/'';
                         parentKey = getCacheKey bucket (or_undefined parentPrefix)
                     in DAList.delete parentKey c)
                   c1 (rev [0..<length parentParts])
         in s\<lparr>cache := c2\<rparr>)
      else
        (let bucketPrefix = bucket @ '':''
         in s\<lparr>cache := DAList.filter (\<lambda>(k, _). \<not> startsWith k bucketPrefix) (cache s)\<rparr>))"

definition S3Cache_invalidateAll :: "S3Cache \<Rightarrow> S3Cache" where
  "S3Cache_invalidateAll s = s\<lparr>cache := DAList.empty\<rparr>"

definition uniqueObjects :: "S3Object list \<Rightarrow> S3Object list" where
  "uniqueObjects allObjects =
     filter_indexed (\<lambda>obj index arr. findIndex (\<lambda>ob. key ob = key obj) arr = int index)
       allObjects"

definition uniquePrefixes :: "S3Prefix list \<Rightarrow> S3Prefix list" where
  "uniquePrefixes allPrefixes =
     filter_indexed (\<lambda>pref index arr. findIndex (\<lambda>p. prefix p = prefix pref) arr = int index)
       allPrefixes"

definition S3Cache_append ::
  "int \<Rightarrow> S3Cache \<Rightarrow> string \<Rightarrow> S3Object list \<Rightarrow> S3Prefix list \<Rightarrow> bool \<Rightarrow>
   string option \<Rightarrow> string option \<Rightarrow> S3Cache" where
  "S3Cache_append now s bucket objs prefs trunc tok pfx =
     (let k = getCacheKey bucket pfx in
      case DAList.lookup (cache s) k of
        Some existing \<Rightarrow>
          (let allObjects = objects existing @ objs;
               allPrefixes = prefixes existing @ prefs
           in s\<lparr>cache := DAList.update k
                  \<lparr>objects = uniqueObjects allObjects,
                   prefixes = uniquePrefixes allPrefixes,
                   isTruncated = trunc, continuationToken = tok,
                   lastFetched = now\<rparr> (cache s)\<rparr>)
      | None \<Rightarrow> S3Cache_set now s bucket objs prefs trunc tok pfx)"

record CacheStats =
  stats_size :: nat
  stats_keys :: "string list"

definition S3Cache_getStats :: "S3Cache \<Rightarrow> CacheStats" where
  "S3Cache_getStats s =
     \<lparr>stats_size = length (DAList.impl_of (cache s)),
      stats_keys = map fst (DAList.impl_of (cache s))\<rparr>"

section \<open>Display nodes and the node materializer (tree/explorer.ts)\<close>

text \<open>
  Modelled from the spec: the node classes and their constructors live in
  \<open>tree/nodes.ts\<close>, which is not among the sources. The variants and their fields are
  those of the data model's DisplayNode: \<open>BucketNode{bucket}\<close>,
  \<open>FolderNode{bucket, prefix}\<close>, \<open>ObjectNode{bucket, key, size, lastModified}\<close>,
  \<open>LoadMoreNode{bucket, prefix?, continuationToken}\<close>. The third argument of
  \<open>createPrefixNode\<close> and \<open>createObjectNode\<close> is the parent prefix the renderer passes.
\<close>

datatype DisplayNode =
    BucketNode string
  | FolderNode string string
  | ObjectNode string string nat "int option"
  | LoadMoreNode string "string option" string

definition createPrefixNode :: "string \<Rightarrow> S3Prefix \<Rightarrow> string option \<Rightarrow> DisplayNode" where
  "createPrefixNode bucket prefixItem parent = FolderNode bucket (prefix prefixItem)"

definition createObjectNode :: "string \<Rightarrow> S3Object \<Rightarrow> string option \<Rightarrow> DisplayNode" where
  "createObjectNode bucket object parent =
     ObjectNode bucket (key object) (size_bytes object) (lastModified object)"

definition createLoadMoreNode :: "string \<Rightarrow> string \<Rightarrow> string option \<Rightarrow> DisplayNode" where
  "createLoadMoreNode bucket token parent = LoadMoreNode bucket parent token"

fun isLoadMoreNode :: "DisplayNode \<Rightarrow> bool" where
  "isLoadMoreNode (LoadMoreNode b p t) = True"
| "isLoadMoreNode n = False"

text \<open>
  \<open>createNodes\<close> renders a fresh listing result, \<open>createNodesFromCache\<close> a cache entry.
  Each \<open>for\<close> loop pushes one node per item onto \<open>nodes\<close>; the guard of the last
  push is \<open>isTruncated && continuationToken\<close>, so an empty token is falsy.
\<close>

definition createNodes ::
  "string \<Rightarrow> 'a ListObjectsResult_scheme \<Rightarrow> string option \<Rightarrow> DisplayNode list" where
  "createNodes bucket result pfx =
     (let nodes0 = foldl (\<lambda>nodes prefixItem. nodes @ [createPrefixNode bucket prefixItem pfx])
                     [] (prefixes result);
          nodes1 = foldl (\<lambda>nodes object. nodes @ [createObjectNode bucket object pfx])
                     nodes0 (objects result)
      in case continuationToken result of
           Some token \<Rightarrow>
             if isTruncated result \<and> token \<noteq> []
             then nodes1 @ [createLoadMoreNode bucket token pfx]
             else nodes1
         | None \<Rightarrow> nodes1)"

definition createNodesFromCache ::
  "string \<Rightarrow> 'a ListObjectsResult_scheme \<Rightarrow> string option \<Rightarrow> DisplayNode list" where
  "createNodesFromCache bucket cached pfx =
     (let nodes0 = foldl (\<lambda>nodes prefixItem. nodes @ [createPrefixNode bucket prefixItem pfx])
                     [] (prefixes cached);
          nodes1 = foldl (\<lambda>nodes object. nodes @ [createObjectNode bucket object pfx])
                     nodes0 (objects cached)
      in case continuationToken cached of
           Some token \<Rightarrow>
             if isTruncated cached \<and> token \<noteq> []
             then nodes1 @ [createLoadMoreNode bucket token pfx]
             else nodes1
         | None \<Rightarrow> nodes1)"

section \<open>The two read paths\<close>

text \<open>
  \<open>listObjects\<close> (s3/listing.ts, not among the sources) is the remote listing call: a
  parameter of the consumers, which either throws or returns a page. The process-wide
  cache instance and the log of the \<open>listObjects\<close> calls issued so far are the state
  the consumers run in. A consumer reads the clock once in \<open>get\<close> (\<open>now\<close>) and once
  more, after the remote call, in \<open>set\<close> or \<open>append\<close> (\<open>now'\<close>).
\<close>

datatype S3Error = S3Error string

type_synonym ListCall = "string \<times> string option \<times> string option"

type_synonym ListObjects = "string \<Rightarrow> string option \<Rightarrow> string option \<Rightarrow> S3Error + ListObjectsResult"

record World =
  s3Cache :: S3Cache
  listCalls :: "ListCall list"

definition getBucketContents ::
  "ListObjects \<Rightarrow> int \<Rightarrow> int \<Rightarrow> World \<Rightarrow> string \<Rightarrow> string option \<Rightarrow>
   (S3Error + DisplayNode list) \<times> World" where
  "getBucketContents listObjects now now' w bucket token =
     (case S3Cache_get now (s3Cache w) bucket None of
        (cached, c1) \<Rightarrow>
          (let fetched =
             (let w1 = w\<lparr>s3Cache := c1, listCalls := listCalls w @ [(bucket, None, token)]\<rparr>
              in case listObjects bucket None token of
                   Inl err \<Rightarrow> (Inl err, w1)
                 | Inr result \<Rightarrow>
                     (let c2 = (if truthy token
                                then S3Cache_append now' c1 bucket (objects result)
                                       (prefixes result) (isTruncated result)
                                       (continuationToken result) None
                                else S3Cache_set now' c1 bucket (objects result)
                                       (prefixes result) (isTruncated result)
                                       (continuationToken result) None)
                      in (Inr (createNodes bucket result None), w1\<lparr>s3Cache := c2\<rparr>)))
           in case cached of
                Some entry \<Rightarrow>
                  if \<not> truthy token
                  then (Inr (createNodesFromCache bucket entry None), w\<lparr>s3Cache := c1\<rparr>)
                  else fetched
              | None \<Rightarrow> fetched))"

definition getPrefixContents ::
  "ListObjects \<Rightarrow> int \<Rightarrow> int \<Rightarrow> World \<Rightarrow> string \<Rightarrow> string \<Rightarrow> string option \<Rightarrow>
   (S3Error + DisplayNode list) \<times> World" where
  "getPrefixContents listObjects now now' w bucket pfx token =
     (case S3Cache_get now (s3Cache w) bucket (Some pfx) of
        (cached, c1) \<Rightarrow>
          (let fetched =
             (let w1 = w\<lparr>s3Cache := c1,
                          listCalls := listCalls w @ [(bucket, Some pfx, token)]\<rparr>
              in case listObjects bucket (Some pfx) token of
                   Inl err \<Rightarrow> (Inl err, w1)
                 | Inr result \<Rightarrow>
                     (let c2 = (if truthy token
                                then S3Cache_append now' c1 bucket (objects result)
                                       (prefixes result) (isTruncated result)
                                       (continuationToken result) (Some pfx)
                                else S3Cache_set now' c1 bucket (objects result)
                                       (prefixes result) (isTruncated result)
                                       (continuationToken result) (Some pfx))
                      in (Inr (createNodes bucket result (Some pfx)), w1\<lparr>s3Cache := c2\<rparr>)))
           in case cached of
                Some entry \<Rightarrow>
                  if \<not> truthy token
                  then (Inr (createNodesFromCache bucket entry (Some pfx)), w\<lparr>s3Cache := c1\<rparr>)
                  else fetched
              | None \<Rightarrow> fetched))"

subsection \<open>The virtual filesystem (fs/provider.ts)\<close>

datatype FileType = File | Directory

datatype FileSystemError = Unavailable

text \<open>\<open>name.substring(prefix.length)\<close> under \<open>if (prefix)\<close>, and \<open>name.replace(/\/$/, "")\<close>.\<close>

definition relativeName :: "string option \<Rightarrow> string \<Rightarrow> string" where
  "relativeName pfx name = (if truthy pfx then drop (length (or_empty pfx)) name else name)"

definition stripTrailingSlash :: "string \<Rightarrow> string" where
  "stripTrailingSlash name = (if endsWith name ''/'' then butlast name else name)"

definition pushPrefixEntry ::
  "string option \<Rightarrow> (string \<times> FileType) list \<Rightarrow> S3Prefix \<Rightarrow> (string \<times> FileType) list" where
  "pushPrefixEntry pfx entries prefixItem =
     (let name = stripTrailingSlash (relativeName pfx (prefix prefixItem))
      in if name \<noteq> [] then entries @ [(name, Directory)] else entries)"

definition pushObjectEntry ::
  "string option \<Rightarrow> (string \<times> FileType) list \<Rightarrow> S3Object \<Rightarrow> (string \<times> FileType) list" where
  "pushObjectEntry pfx entries object =
     (let name = relativeName pfx (key object)
      in if CHR ''/'' \<in> set name then entries
         else if name \<noteq> [] then entries @ [(name, File)] else entries)"

text \<open>
  \<open>parseS3xUri\<close> (util/paths.ts, not among the sources) either throws or returns the
  bucket and the key of the URI; its outcome is the argument \<open>parsed\<close>. Every exception
  inside the \<open>try\<close> block is rethrown as \<open>Unavailable\<close>. The provider does not import
  the cache: it calls \<open>listObjects\<close> on every request.
\<close>

definition readDirectory ::
  "ListObjects \<Rightarrow> World \<Rightarrow> S3Error + string \<times> string option \<Rightarrow>
   (FileSystemError + (string \<times> FileType) list) \<times> World" where
  "readDirectory listObjects w parsed =
     (case parsed of
        Inl err \<Rightarrow> (Inl Unavailable, w)
      | Inr (bucket, k) \<Rightarrow>
          (let pfx = (if truthy k then k else None);
               w1 = w\<lparr>listCalls := listCalls w @ [(bucket, pfx, None)]\<rparr>
           in case listObjects bucket pfx None of
                Inl err \<Rightarrow> (Inl Unavailable, w1)
              | Inr result \<Rightarrow>
                  (let entries0 = foldl (pushPrefixEntry pfx) [] (prefixes result);
                       entries1 = foldl (pushObjectEntry pfx) entries0 (objects result)
                   in (Inr entries1, w1))))"

section \<open>Auxiliary notions for the statements\<close>

text \<open>
  The items of a list whose identity (under \<open>f\<close>) has not been seen before, in order:
  the function the index-based duplicate filter of \<open>append\<close> is shown to compute.
\<close>

fun first_by :: "('a \<Rightarrow> 'k) \<Rightarrow> 'k set \<Rightarrow> 'a list \<Rightarrow> 'a list" where
  "first_by f seen [] = []"
| "first_by f seen (x # xs) =
     (if f x \<in> seen then first_by f seen xs else x # first_by f (insert (f x) seen) xs)"

text \<open>The invariant of the data model: a token is present iff the entry is truncated.\<close>

definition entry_inv :: "CacheEntry \<Rightarrow> bool" where
  "entry_inv e = (continuationToken e \<noteq> None \<longleftrightarrow> isTruncated e)"

definition cache_inv :: "S3Cache \<Rightarrow> bool" where
  "cache_inv s = list_all (\<lambda>(k, e). entry_inv e) (DAList.impl_of (cache s))"

section \<open>Concrete caches used in the examples\<close>

definition empty_bucket_cache :: S3Cache where
  "empty_bucket_cache = S3Cache_set 0 (new_S3Cache DEFAULT_TTL) ''bkt'' [] [] False None None"

definition empty_entry :: CacheEntry where
  "empty_entry = \<lparr>objects = [], prefixes = [], isTruncated = False,
                   continuationToken = None, lastFetched = 0\<rparr>"

definition cascade_cache :: S3Cache where
  "cascade_cache =
     S3Cache_set 0 (S3Cache_set 0 (S3Cache_set 0 (S3Cache_set 0 (new_S3Cache DEFAULT_TTL)
       ''b'' [] [] False None None)
       ''b'' [] [] False None (Some ''a/''))
       ''b'' [] [] False None (Some ''a/c/''))
       ''b'' [] [] False None (Some ''z/'')"

definition obj_a :: S3Object where
  "obj_a = \<lparr>key = ''a.txt'', size_bytes = 1, lastModified = None, etag = None,
             storageClass = None\<rparr>"

definition obj_a_again :: S3Object where
  "obj_a_again = \<lparr>key = ''a.txt'', size_bytes = 99, lastModified = Some 7, etag = None,
                   storageClass = None\<rparr>"

definition obj_b :: S3Object where
  "obj_b = \<lparr>key = ''b.txt'', size_bytes = 2, lastModified = None, etag = None,
             storageClass = None\<rparr>"

definition pfx_x :: S3Prefix where
  "pfx_x = \<lparr>prefix = ''x/''\<rparr>"

definition pfx_y :: S3Prefix where
  "pfx_y = \<lparr>prefix = ''y/''\<rparr>"

definition paged_cache :: S3Cache where
  "paged_cache =
     S3Cache_set 0 (new_S3Cache DEFAULT_TTL) ''bkt'' [obj_a] [pfx_x] True (Some ''tok1'') None"

definition paged_entry :: CacheEntry where
  "paged_entry = \<lparr>objects = [obj_a], prefixes = [pfx_x], isTruncated = True,
                   continuationToken = Some ''tok1'', lastFetched = 0\<rparr>"

definition repeated_key_entry :: CacheEntry where
  "repeated_key_entry = \<lparr>objects = [obj_a, obj_a_again, obj_b], prefixes = [],
                          isTruncated = True, continuationToken = Some ''tok1'',
                          lastFetched = 0\<rparr>"

definition repeated_key_cache :: S3Cache where
  "repeated_key_cache =
     S3Cache_set 0 (new_S3Cache DEFAULT_TTL) ''bkt'' [obj_a, obj_a_again, obj_b] [] True
       (Some ''tok1'') None"

definition truncated_no_token :: CacheEntry where
  "truncated_no_token = \<lparr>objects = [obj_a], prefixes = [pfx_x], isTruncated = True,
                          continuationToken = None, lastFetched = 0\<rparr>"

definition truncated_empty_token :: CacheEntry where
  "truncated_empty_token = \<lparr>objects = [obj_a], prefixes = [pfx_x], isTruncated = True,
                             continuationToken = Some [], lastFetched = 0\<rparr>"

definition complete_with_token :: CacheEntry where
  "complete_with_token = \<lparr>objects = [obj_a], prefixes = [pfx_x], isTruncated = False,
                           continuationToken = Some ''stale'', lastFetched = 0\<rparr>"

definition paged_listing :: ListObjectsResult where
  "paged_listing = \<lparr>objects = [obj_a], prefixes = [pfx_x], isTruncated = True,
                     continuationToken = Some ''tok1''\<rparr>"

definition marker_object :: S3Object where
  "marker_object = \<lparr>key = ''docs/'', size_bytes = 0, lastModified = None, etag = None,
                     storageClass = None\<rparr>"

definition child_object :: S3Object where
  "child_object = \<lparr>key = ''docs/a.txt'', size_bytes = 3, lastModified = None, etag = None,
                    storageClass = None\<rparr>"

definition nested_object :: S3Object where
  "nested_object = \<lparr>key = ''docs/sub/b.txt'', size_bytes = 4, lastModified = None,
                     etag = None, storageClass = None\<rparr>"

definition docs_result :: ListObjectsResult where
  "docs_result =
     \<lparr>objects = [marker_object, child_object, nested_object],
      prefixes = [\<lparr>prefix = ''docs/''\<rparr>, \<lparr>prefix = ''docs/sub/''\<rparr>],
      isTruncated = False, continuationToken = None\<rparr>"

definition docs_listing :: ListObjects where
  "docs_listing bucket pfx token = Inr docs_result"

definition fresh_world :: World where
  "fresh_world = \<lparr>s3Cache = empty_bucket_cache, listCalls = []\<rparr>"

definition folder_world :: World where
  "folder_world =
     \<lparr>s3Cache = S3Cache_set 0 (new_S3Cache DEFAULT_TTL) ''bkt'' [obj_a] [pfx_x] True
                   (Some ''tok1'') (Some ''a/''),
      listCalls = []\<rparr>"

definition empty_result :: ListObjectsResult where
  "empty_result = \<lparr>objects = [], prefixes = [], isTruncated = False, continuationToken = None\<rparr>"

definition empty_listing :: ListObjects where
  "empty_listing bucket pfx token = Inr empty_result"

section \<open>Helper lemmas\<close>

subsection \<open>Association lists\<close>

lemma length_delete_present:
  "distinct (map fst al) \<Longrightarrow> k \<in> fst ` set al \<Longrightarrow> Suc (length (AList.delete k al)) = length al"
proof (induction al)
  case Nil
  then show ?case by simp
next
  case (Cons a al)
  show ?case
  proof (cases "fst a = k")
    case True
    with Cons.prems have "k \<notin> fst ` set al" by auto
    then have "AList.delete k al = al" by (rule AList.delete_id)
    with True show ?thesis by (cases a) simp
  next
    case False
    with Cons show ?thesis by (cases a) auto
  qed
qed

subsection \<open>The duplicate filter of append\<close>

lemma findIndex_lower: "- 1 \<le> findIndex P xs"
  by (induction xs) (auto simp: Let_def)

lemma findIndex_upper: "findIndex P xs < int (length xs)"
  by (induction xs) (auto simp: Let_def)

lemma findIndex_nonneg_iff: "0 \<le> findIndex P xs \<longleftrightarrow> (\<exists>x\<in>set xs. P x)"
  using findIndex_lower [of P] by (induction xs) (auto simp: Let_def)

lemma findIndex_append:
  "findIndex P (xs @ ys) =
     (if \<exists>x\<in>set xs. P x then findIndex P xs
      else if findIndex P ys < 0 then - 1 else int (length xs) + findIndex P ys)"
proof (induction xs)
  case Nil
  show ?case using findIndex_lower [of P ys] by auto
next
  case (Cons a xs)
  show ?case
  proof (cases "P a")
    case True
    then show ?thesis by simp
  next
    case False
    show ?thesis
    proof (cases "\<exists>x\<in>set xs. P x")
      case True
      with False Cons show ?thesis by (simp add: Let_def)
    next
      case F2: False
      with False Cons findIndex_lower [of P ys] show ?thesis
        by (auto simp: Let_def)
    qed
  qed
qed

lemma findIndex_at_position:
  "findIndex P (pre @ x # suf) = int (length pre) \<longleftrightarrow> P x \<and> \<not> (\<exists>y\<in>set pre. P y)"
proof (cases "\<exists>y\<in>set pre. P y")
  case True
  then have "findIndex P (pre @ x # suf) = findIndex P pre"
    by (simp add: findIndex_append)
  with True findIndex_upper [of P pre] show ?thesis by auto
next
  case False
  with findIndex_lower [of P suf] show ?thesis
    by (auto simp: findIndex_append Let_def)
qed

lemma filter_indexed_suffix:
  "map fst (filter (\<lambda>(x, i). findIndex (\<lambda>y. f y = f x) (pre @ suf) = int i)
       (zip suf [length pre..<length pre + length suf]))
   = first_by f (f ` set pre) suf"
proof (induction suf arbitrary: pre)
  case Nil
  show ?case by simp
next
  case (Cons x suf)
  have z: "zip (x # suf) [length pre..<length pre + length (x # suf)]
           = (x, length pre) # zip suf [length (pre @ [x])..<length (pre @ [x]) + length suf]"
    by (subst upt_rec) simp
  define rest where "rest = map fst (filter (\<lambda>(y, i). findIndex (\<lambda>z. f z = f y) (pre @ x # suf) = int i)
       (zip suf [length (pre @ [x])..<length (pre @ [x]) + length suf]))"
  have ih: "rest = first_by f (insert (f x) (f ` set pre)) suf"
    using Cons.IH [of "pre @ [x]"] by (simp add: rest_def)
  have keep: "findIndex (\<lambda>y. f y = f x) (pre @ x # suf) = int (length pre) \<longleftrightarrow> f x \<notin> f ` set pre"
    unfolding findIndex_at_position by (metis (full_types) image_iff)
  have "map fst (filter (\<lambda>(y, i). findIndex (\<lambda>z. f z = f y) (pre @ x # suf) = int i)
       (zip (x # suf) [length pre..<length pre + length (x # suf)]))
     = (if f x \<notin> f ` set pre then x # rest else rest)"
    unfolding z rest_def using keep by simp
  then show ?case
    by (simp add: ih insert_absorb)
qed

lemma filter_indexed_first_by:
  "filter_indexed (\<lambda>x i arr. findIndex (\<lambda>y. f y = f x) arr = int i) arr = first_by f {} arr"
  using filter_indexed_suffix [of f "[]" arr] by (simp add: filter_indexed_def)

lemma uniqueObjects_first_by: "uniqueObjects xs = first_by key {} xs"
  by (simp add: uniqueObjects_def filter_indexed_first_by)

lemma uniquePrefixes_first_by: "uniquePrefixes xs = first_by prefix {} xs"
  by (simp add: uniquePrefixes_def filter_indexed_first_by)

lemma first_by_keys: "f ` set (first_by f S xs) = f ` set xs - S"
  by (induction xs arbitrary: S) auto

lemma first_by_distinct: "distinct (map f (first_by f S xs))"
proof (induction xs arbitrary: S)
  case Nil
  show ?case by simp
next
  case (Cons x xs)
  have "f x \<notin> f ` set (first_by f (insert (f x) S) xs)"
    by (simp add: first_by_keys)
  with Cons show ?case by simp
qed

lemma first_by_append:
  "first_by f S (xs @ ys) = first_by f S xs @ first_by f (S \<union> f ` set xs) ys"
  by (induction xs arbitrary: S) (auto simp: insert_absorb)

lemma first_by_seen: "f ` set xs \<subseteq> S \<Longrightarrow> first_by f S xs = []"
  by (induction xs arbitrary: S) auto

lemma first_by_id:
  "distinct (map f xs) \<Longrightarrow> f ` set xs \<inter> S = {} \<Longrightarrow> first_by f S xs = xs"
  by (induction xs arbitrary: S) auto

lemma first_by_idem: "first_by f {} (first_by f {} xs @ ys) = first_by f {} (xs @ ys)"
proof -
  have "first_by f {} (first_by f {} xs) = first_by f {} xs"
    by (rule first_by_id) (simp_all add: first_by_distinct)
  then show ?thesis
    by (simp add: first_by_append first_by_keys)
qed

lemma first_by_find:
  "x \<in> set (first_by f S zs) \<Longrightarrow> find (\<lambda>y. f y = f x) zs = Some x"
proof (induction zs arbitrary: S)
  case Nil
  then show ?case by simp
next
  case (Cons z zs)
  show ?case
  proof (cases "f z \<in> S")
    case True
    with Cons.prems have m: "x \<in> set (first_by f S zs)" by simp
    then have "f x \<in> f ` set (first_by f S zs)" by blast
    then have "f x \<notin> S" by (simp add: first_by_keys)
    with True have "f z \<noteq> f x" by auto
    with Cons.IH [OF m] show ?thesis by simp
  next
    case False
    show ?thesis
    proof (cases "x = z")
      case True
      then show ?thesis by simp
    next
      case F2: False
      with False Cons.prems have m: "x \<in> set (first_by f (insert (f z) S) zs)" by simp
      then have "f x \<in> f ` set (first_by f (insert (f z) S) zs)" by blast
      then have "f x \<noteq> f z" by (simp add: first_by_keys)
      with Cons.IH [OF m] show ?thesis by simp
    qed
  qed
qed

lemma first_by_twice: "first_by f {} (first_by f {} zs @ ys) = first_by f {} zs"
  if "set ys \<subseteq> set zs"
proof -
  have "first_by f {} (first_by f {} zs @ ys) = first_by f {} (zs @ ys)"
    by (rule first_by_idem)
  also have "\<dots> = first_by f {} zs @ first_by f (f ` set zs) ys"
    by (simp add: first_by_append)
  also have "first_by f (f ` set zs) ys = []"
    using that by (intro first_by_seen) auto
  finally show ?thesis by simp
qed

lemma first_by_subset: "set (first_by f S xs) \<subseteq> set xs"
  by (induction xs arbitrary: S) auto

lemma first_by_keeps_existing:
  "distinct (map f xs) \<Longrightarrow> take (length xs) (first_by f {} (xs @ ys)) = xs"
  by (simp add: first_by_append first_by_id)

lemma first_by_position:
  "i < length xs \<Longrightarrow> f (xs ! i) \<notin> S \<union> f ` set (take i xs) \<Longrightarrow>
   card (f ` set (take i xs) - S) < length (first_by f S xs) \<and>
   first_by f S xs ! card (f ` set (take i xs) - S) = xs ! i"
proof (induction xs arbitrary: S i)
  case Nil
  then show ?case by simp
next
  case (Cons x xs)
  show ?case
  proof (cases i)
    case 0
    with Cons.prems show ?thesis by simp
  next
    case (Suc j)
    with Cons.prems have j: "j < length xs" by simp
    show ?thesis
    proof (cases "f x \<in> S")
      case True
      from Cons.prems Suc have n: "f (xs ! j) \<notin> S \<union> f ` set (take j xs)" by simp
      from True have c: "insert (f x) (f ` set (take j xs)) - S = f ` set (take j xs) - S"
        by auto
      from Cons.IH [OF j n] True Suc show ?thesis by (simp add: c)
    next
      case False
      from Cons.prems Suc have n: "f (xs ! j) \<notin> insert (f x) S \<union> f ` set (take j xs)" by simp
      have "insert (f x) (f ` set (take j xs)) - S
            = insert (f x) (f ` set (take j xs) - insert (f x) S)"
        using False by auto
      moreover have "f x \<notin> f ` set (take j xs) - insert (f x) S" by simp
      ultimately have c: "card (insert (f x) (f ` set (take j xs)) - S)
            = Suc (card (f ` set (take j xs) - insert (f x) S))"
        by simp
      from Cons.IH [OF j n] False Suc show ?thesis by (simp add: c)
    qed
  qed
qed

lemma first_by_old_position:
  assumes "i < length xs" and "f (xs ! i) \<notin> f ` set (take i xs)"
  shows "first_by f {} (xs @ ys) ! card (f ` set (take i xs)) = xs ! i"
  using first_by_position [of i "xs @ ys" f "{}"] assms by (simp add: nth_append)

lemma append_existing:
  assumes "DAList.lookup (cache s) (getCacheKey b p) = Some e"
  shows "DAList.lookup (cache (S3Cache_append now s b objs prefs t tok p)) (getCacheKey b p)
         = Some \<lparr>objects = uniqueObjects (objects e @ objs),
                  prefixes = uniquePrefixes (prefixes e @ prefs),
                  isTruncated = t, continuationToken = tok, lastFetched = now\<rparr>"
  using assms by (simp add: S3Cache_append_def Let_def)

subsection \<open>The token invariant\<close>

lemma list_all_update:
  "list_all (\<lambda>(k, e). P e) al \<Longrightarrow> P v \<Longrightarrow> list_all (\<lambda>(k, e). P e) (AList.update k' v al)"
  by (induction al) auto

lemma list_all_delete:
  "list_all P al \<Longrightarrow> list_all P (AList.delete k al)"
  by (simp add: AList.delete_eq list_all_iff)

lemma cache_inv_lookup:
  "cache_inv s \<Longrightarrow> DAList.lookup (cache s) k = Some e \<Longrightarrow> entry_inv e"
  by (auto simp: cache_inv_def DAList.lookup.rep_eq list_all_iff dest!: map_of_SomeD)

lemma cache_inv_set:
  "cache_inv s \<Longrightarrow> (tok \<noteq> None \<longleftrightarrow> trunc) \<Longrightarrow>
   cache_inv (S3Cache_set now s b objs prefs trunc tok p)"
  by (simp add: cache_inv_def S3Cache_set_def Let_def DAList.update.rep_eq list_all_update entry_inv_def)

lemma cache_inv_append:
  assumes "cache_inv s" and "tok \<noteq> None \<longleftrightarrow> trunc"
  shows "cache_inv (S3Cache_append now s b objs prefs trunc tok p)"
proof (cases "DAList.lookup (cache s) (getCacheKey b p)")
  case None
  then have "S3Cache_append now s b objs prefs trunc tok p
             = S3Cache_set now s b objs prefs trunc tok p"
    by (simp add: S3Cache_append_def Let_def)
  with assms show ?thesis by (simp add: cache_inv_set)
next
  case (Some existing)
  with assms show ?thesis
    by (simp add: S3Cache_append_def Let_def cache_inv_def DAList.update.rep_eq
        list_all_update entry_inv_def)
qed

lemma cache_inv_get:
  "cache_inv s \<Longrightarrow> cache_inv (snd (S3Cache_get now s b p))"
  by (simp add: S3Cache_get_def Let_def cache_inv_def DAList.delete.rep_eq list_all_delete
      split: option.splits)

lemma get_Some_lookup:
  "fst (S3Cache_get now s b p) = Some e \<Longrightarrow> DAList.lookup (cache s) (getCacheKey b p) = Some e"
  by (auto simp: S3Cache_get_def Let_def split: option.splits if_splits)

subsection \<open>The node materializer\<close>

lemma foldl_push: "foldl (\<lambda>nodes x. nodes @ [g x]) acc xs = acc @ map g xs"
  by (induction xs arbitrary: acc) simp_all

lemma createNodes_eq:
  "createNodes b r p =
     map (\<lambda>q. createPrefixNode b q p) (prefixes r) @
     map (\<lambda>ob. createObjectNode b ob p) (objects r) @
     (if isTruncated r \<and> truthy (continuationToken r)
      then [createLoadMoreNode b (or_empty (continuationToken r)) p] else [])"
  by (simp add: createNodes_def foldl_push truthy_def or_empty_def Let_def split: option.splits)

lemma createNodesFromCache_eq:
  "createNodesFromCache b r p =
     map (\<lambda>q. createPrefixNode b q p) (prefixes r) @
     map (\<lambda>ob. createObjectNode b ob p) (objects r) @
     (if isTruncated r \<and> truthy (continuationToken r)
      then [createLoadMoreNode b (or_empty (continuationToken r)) p] else [])"
  by (simp add: createNodesFromCache_def foldl_push truthy_def or_empty_def Let_def
      split: option.splits)

lemma no_load_more_in_items:
  "filter isLoadMoreNode (map (\<lambda>q. createPrefixNode b q p) qs) = []"
  "filter isLoadMoreNode (map (\<lambda>ob. createObjectNode b ob p) obs) = []"
  by (simp_all add: createPrefixNode_def createObjectNode_def filter_empty_conv)

lemma load_more_nodes:
  "filter isLoadMoreNode
     (map (\<lambda>q. createPrefixNode b q p) qs @ map (\<lambda>ob. createObjectNode b ob p) obs @ rest)
   = filter isLoadMoreNode rest"
  by (simp add: no_load_more_in_items)

subsection \<open>The read paths\<close>

lemma get_hit_unchanged:
  "fst (S3Cache_get now s b p) = Some e \<Longrightarrow> snd (S3Cache_get now s b p) = s"
  by (auto simp: S3Cache_get_def Let_def split: option.splits if_splits)

lemma relativeName_requested: "relativeName (if truthy k then k else None) name = relativeName k name"
  by (simp add: relativeName_def truthy_def)

lemma foldl_pushPrefixEntry:
  "foldl (pushPrefixEntry k) acc qs =
     acc @ map (\<lambda>q. (stripTrailingSlash (relativeName k (prefix q)), Directory))
             (filter (\<lambda>q. stripTrailingSlash (relativeName k (prefix q)) \<noteq> []) qs)"
  by (induction qs arbitrary: acc) (simp_all add: pushPrefixEntry_def Let_def)

lemma foldl_pushObjectEntry:
  "foldl (pushObjectEntry k) acc obs =
     acc @ map (\<lambda>ob. (relativeName k (key ob), File))
             (filter (\<lambda>ob. relativeName k (key ob) \<noteq> [] \<and>
                          CHR ''/'' \<notin> set (relativeName k (key ob))) obs)"
  by (induction obs arbitrary: acc) (simp_all add: pushObjectEntry_def Let_def)

lemma pushEntry_requested:
  "pushPrefixEntry (if truthy k then k else None) = pushPrefixEntry k"
  "pushObjectEntry (if truthy k then k else None) = pushObjectEntry k"
  by (simp_all add: fun_eq_iff pushPrefixEntry_def pushObjectEntry_def relativeName_requested)

lemma readDirectory_entries:
  assumes "fst (readDirectory L w (Inr (b, k))) = Inr entries"
  shows "\<exists>result. L b (if truthy k then k else None) None = Inr result \<and>
     entries =
       map (\<lambda>q. (stripTrailingSlash (relativeName k (prefix q)), Directory))
         (filter (\<lambda>q. stripTrailingSlash (relativeName k (prefix q)) \<noteq> []) (prefixes result)) @
       map (\<lambda>ob. (relativeName k (key ob), File))
         (filter (\<lambda>ob. relativeName k (key ob) \<noteq> [] \<and>
                      CHR ''/'' \<notin> set (relativeName k (key ob))) (objects result))"
proof (cases "L b (if truthy k then k else None) None")
  case (Inl err)
  with assms show ?thesis
    by (simp add: readDirectory_def Let_def)
next
  case (Inr result)
  with assms have "entries = foldl (pushObjectEntry k) (foldl (pushPrefixEntry k) [] (prefixes result))
                     (objects result)"
    by (simp add: readDirectory_def Let_def pushEntry_requested)
  with Inr show ?thesis
    by (simp add: foldl_pushPrefixEntry foldl_pushObjectEntry)
qed

lemma relativeName_marker: "truthy k \<Longrightarrow> Some name = k \<Longrightarrow> relativeName k name = []"
  by (auto simp: relativeName_def or_empty_def)

section \<open>The listing cache\<close>

text \<open>
  Claim C1. After \<open>invalidate(b, p)\<close> with a non-empty \<open>p\<close> the cache should hold no
  entry for \<open>(b, p)\<close> and none for an ancestor of \<open>p\<close>: with entries for \<open>(b, "")\<close>,
  \<open>(b, "a/")\<close>, \<open>(b, "a/c/")\<close> and \<open>(b, "z/")\<close>, \<open>invalidate(b, "a/c/x.txt")\<close> should
  leave \<open>(b, "z/")\<close> only. The code joins the leading path segments without the
  trailing slash the folder keys carry, so it deletes the keys \<open>b:a/c\<close>, \<open>b:a\<close> and
  \<open>b:\<close>: of the three ancestors only the bucket root goes, and the entries of \<open>a/\<close>
  and \<open>a/c/\<close> stay in the cache.
\<close>

theorem invalidate_misses_folder_ancestors:
  "stats_keys (S3Cache_getStats cascade_cache) = [''b:'', ''b:a/'', ''b:a/c/'', ''b:z/''] \<and>
   stats_keys (S3Cache_getStats (S3Cache_invalidate cascade_cache ''b'' (Some ''a/c/x.txt'')))
     = [''b:a/'', ''b:a/c/'', ''b:z/''] \<and>
   stats_keys (S3Cache_getStats (S3Cache_invalidate cascade_cache ''b'' (Some ''a/c/'')))
     = [''b:a/'', ''b:z/'']"
  unfolding cascade_cache_def
  by (simp add: S3Cache_getStats_def S3Cache_invalidate_def S3Cache_set_def new_S3Cache_def
      getCacheKey_def or_empty_def or_undefined_def truthy_def endsWith_def Let_def
      DAList.update.rep_eq DAList.delete.rep_eq DAList.empty.rep_eq upt_rec)

text \<open>
  Claim C2. For an entry \<open>e\<close> cached under the key of \<open>(b, p)\<close>: a \<open>get\<close> at a time
  \<open>now\<close> with \<open>now - lastFetched e > ttl\<close> returns absent and removes the entry, so
  that the size reported by \<open>getStats\<close> is one less than before; a \<open>get\<close> with
  \<open>now - lastFetched e \<le> ttl\<close> returns \<open>e\<close> and leaves the cache as it was.
\<close>

theorem get_freshness:
  assumes "DAList.lookup (cache s) (getCacheKey b p) = Some e"
  shows "(now - lastFetched e > ttl s \<longrightarrow>
            fst (S3Cache_get now s b p) = None \<and>
            DAList.lookup (cache (snd (S3Cache_get now s b p))) (getCacheKey b p) = None \<and>
            stats_size (S3Cache_getStats (snd (S3Cache_get now s b p))) + 1
              = stats_size (S3Cache_getStats s))
       \<and> (now - lastFetched e \<le> ttl s \<longrightarrow> S3Cache_get now s b p = (Some e, s))"
proof -
  from assms have "getCacheKey b p \<in> fst ` set (DAList.impl_of (cache s))"
    by (simp add: DAList.lookup.rep_eq) (metis map_of_SomeD fst_conv image_eqI)
  then have "Suc (length (DAList.impl_of (DAList.delete (getCacheKey b p) (cache s))))
        = length (DAList.impl_of (cache s))"
    by (simp add: DAList.delete.rep_eq length_delete_present)
  then show ?thesis
    using assms by (simp add: S3Cache_get_def S3Cache_getStats_def Let_def)
qed

theorem get_freshness_witness:
  "DAList.lookup (cache empty_bucket_cache) (getCacheKey ''bkt'' None) = Some empty_entry \<and>
   fst (S3Cache_get 300001 empty_bucket_cache ''bkt'' None) = None \<and>
   stats_size (S3Cache_getStats (snd (S3Cache_get 300001 empty_bucket_cache ''bkt'' None))) + 1
     = stats_size (S3Cache_getStats empty_bucket_cache) \<and>
   S3Cache_get 300000 empty_bucket_cache ''bkt'' None = (Some empty_entry, empty_bucket_cache)"
proof -
  have h: "DAList.lookup (cache empty_bucket_cache) (getCacheKey ''bkt'' None) = Some empty_entry"
    by (simp add: empty_bucket_cache_def empty_entry_def S3Cache_set_def new_S3Cache_def Let_def)
  have t: "ttl empty_bucket_cache = 300000" "lastFetched empty_entry = 0"
    by (simp_all add: empty_bucket_cache_def empty_entry_def S3Cache_set_def new_S3Cache_def
        DEFAULT_TTL_def Let_def)
  from h get_freshness [OF h, of 300001] get_freshness [OF h, of 300000]
  show ?thesis
    by (simp add: t)
qed

text \<open>
  Claim C3, as stated: for every existing entry, an item already present keeps its
  position when a page repeats its identity. \<open>set\<close> stores a page as it is, so an
  entry can repeat a key itself; \<open>append\<close> then drops the repetition as well and the
  items behind it move up. With the entry \<open>[a.txt, a.txt, b.txt]\<close> and the page
  \<open>[b.txt]\<close> the merged sequence is \<open>[a.txt, b.txt]\<close>: \<open>b.txt\<close>, already present at
  index 2, ends at index 1.
\<close>

theorem append_moves_item_behind_repeated_key:
  "DAList.lookup (cache repeated_key_cache) (getCacheKey ''bkt'' None) = Some repeated_key_entry \<and>
   objects repeated_key_entry = [obj_a, obj_a_again, obj_b] \<and>
   objects repeated_key_entry ! 2 = obj_b \<and>
   DAList.lookup
     (cache (S3Cache_append 1 repeated_key_cache ''bkt'' [obj_b] [] False None None))
     (getCacheKey ''bkt'' None)
   = Some \<lparr>objects = [obj_a, obj_b], prefixes = [], isTruncated = False,
            continuationToken = None, lastFetched = 1\<rparr> \<and>
   [obj_a, obj_b] ! 1 = obj_b \<and> length [obj_a, obj_b] = 2 \<and>
   take (length (objects repeated_key_entry)) [obj_a, obj_b] \<noteq> objects repeated_key_entry"
proof -
  have h: "DAList.lookup (cache repeated_key_cache) (getCacheKey ''bkt'' None)
           = Some repeated_key_entry"
    by (simp add: repeated_key_cache_def repeated_key_entry_def S3Cache_set_def
        new_S3Cache_def Let_def)
  have o: "objects repeated_key_entry = [obj_a, obj_a_again, obj_b]"
    "prefixes repeated_key_entry = []"
    by (simp_all add: repeated_key_entry_def)
  have u: "uniqueObjects [obj_a, obj_a_again, obj_b, obj_b] = [obj_a, obj_b]"
    "uniquePrefixes [] = []"
    by (simp_all add: uniqueObjects_first_by uniquePrefixes_first_by obj_a_def obj_a_again_def
        obj_b_def)
  have a: "DAList.lookup
     (cache (S3Cache_append 1 repeated_key_cache ''bkt'' [obj_b] [] False None None))
     (getCacheKey ''bkt'' None)
   = Some \<lparr>objects = [obj_a, obj_b], prefixes = [], isTruncated = False,
            continuationToken = None, lastFetched = 1\<rparr>"
    using append_existing [OF h, of 1 "[obj_b]" "[]" False None] by (simp add: o u)
  have i: "objects repeated_key_entry ! 2 = obj_b" "[obj_a, obj_b] ! 1 = obj_b"
    by (simp_all add: o)
  have j: "length [obj_a, obj_b] = 2"
    "take (length (objects repeated_key_entry)) [obj_a, obj_b] \<noteq> objects repeated_key_entry"
    by (simp_all add: o)
  from h o(1) i a j show ?thesis by (intro conjI)
qed

text \<open>
  Claim C3, amended. For an entry \<open>e\<close> cached under the key of \<open>(b, p)\<close> and a page of
  objects and prefixes: appending the page twice gives an entry whose \<open>objects\<close> and
  \<open>prefixes\<close> are those of appending it once (so the lengths agree), no two objects
  share a key and no two prefixes a prefix, every identity of the old entry and of the
  page is kept, the item kept for an identity is the first one with that identity in
  the old sequence followed by the page, the new sequence is the old one (its own
  duplicates removed) followed by items of the page, the items of an old sequence
  without duplicates stay at their positions, and in general an old item that is the
  first of its identity stands at the index that counts the identities before it.
\<close>

theorem append_idempotent_dedup:
  assumes "DAList.lookup (cache s) (getCacheKey b p) = Some e"
  shows "\<exists>e1 e2.
     DAList.lookup (cache (S3Cache_append n1 s b objs prefs t1 k1 p)) (getCacheKey b p) = Some e1 \<and>
     DAList.lookup (cache (S3Cache_append n2 (S3Cache_append n1 s b objs prefs t1 k1 p)
                             b objs prefs t2 k2 p)) (getCacheKey b p) = Some e2 \<and>
     length (objects e2) = length (objects e1) \<and> length (prefixes e2) = length (prefixes e1) \<and>
     objects e2 = objects e1 \<and> prefixes e2 = prefixes e1 \<and>
     distinct (map key (objects e1)) \<and> distinct (map prefix (prefixes e1)) \<and>
     key ` set (objects e1) = key ` set (objects e @ objs) \<and>
     prefix ` set (prefixes e1) = prefix ` set (prefixes e @ prefs) \<and>
     (\<forall>x\<in>set (objects e1). find (\<lambda>y. key y = key x) (objects e @ objs) = Some x) \<and>
     (\<forall>x\<in>set (prefixes e1). find (\<lambda>y. prefix y = prefix x) (prefixes e @ prefs) = Some x) \<and>
     (\<exists>news. objects e1 = uniqueObjects (objects e) @ news \<and> set news \<subseteq> set objs) \<and>
     (\<exists>news. prefixes e1 = uniquePrefixes (prefixes e) @ news \<and> set news \<subseteq> set prefs) \<and>
     (distinct (map key (objects e)) \<longrightarrow> take (length (objects e)) (objects e1) = objects e) \<and>
     (distinct (map prefix (prefixes e)) \<longrightarrow>
        take (length (prefixes e)) (prefixes e1) = prefixes e) \<and>
     (\<forall>i<length (objects e). key (objects e ! i) \<notin> key ` set (take i (objects e)) \<longrightarrow>
        objects e1 ! card (key ` set (take i (objects e))) = objects e ! i) \<and>
     (\<forall>i<length (prefixes e).
        prefix (prefixes e ! i) \<notin> prefix ` set (take i (prefixes e)) \<longrightarrow>
        prefixes e1 ! card (prefix ` set (take i (prefixes e))) = prefixes e ! i)"
proof -
  define e1 :: CacheEntry where "e1 = \<lparr>objects = uniqueObjects (objects e @ objs),
                  prefixes = uniquePrefixes (prefixes e @ prefs),
                  isTruncated = t1, continuationToken = k1, lastFetched = n1\<rparr>"
  define e2 :: CacheEntry where "e2 = \<lparr>objects = uniqueObjects (objects e1 @ objs),
                  prefixes = uniquePrefixes (prefixes e1 @ prefs),
                  isTruncated = t2, continuationToken = k2, lastFetched = n2\<rparr>"
  have l1: "DAList.lookup (cache (S3Cache_append n1 s b objs prefs t1 k1 p)) (getCacheKey b p) = Some e1"
    unfolding e1_def by (rule append_existing [OF assms])
  have l2: "DAList.lookup (cache (S3Cache_append n2 (S3Cache_append n1 s b objs prefs t1 k1 p)
                             b objs prefs t2 k2 p)) (getCacheKey b p) = Some e2"
    unfolding e2_def by (rule append_existing [OF l1])
  have o1: "objects e1 = first_by key {} (objects e @ objs)"
    and p1: "prefixes e1 = first_by prefix {} (prefixes e @ prefs)"
    by (simp_all add: e1_def uniqueObjects_first_by uniquePrefixes_first_by)
  have o2: "objects e2 = objects e1"
    unfolding e2_def o1 by (simp add: uniqueObjects_first_by first_by_twice)
  have p2: "prefixes e2 = prefixes e1"
    unfolding e2_def p1 by (simp add: uniquePrefixes_first_by first_by_twice)
  have d: "distinct (map key (objects e1))" "distinct (map prefix (prefixes e1))"
    by (simp_all add: o1 p1 first_by_distinct)
  have k: "key ` set (objects e1) = key ` set (objects e @ objs)"
    "prefix ` set (prefixes e1) = prefix ` set (prefixes e @ prefs)"
    unfolding o1 p1 first_by_keys by simp_all
  have f: "\<forall>x\<in>set (objects e1). find (\<lambda>y. key y = key x) (objects e @ objs) = Some x"
    "\<forall>x\<in>set (prefixes e1). find (\<lambda>y. prefix y = prefix x) (prefixes e @ prefs) = Some x"
    unfolding o1 p1 by (blast intro: first_by_find)+
  have t: "distinct (map key (objects e)) \<longrightarrow> take (length (objects e)) (objects e1) = objects e"
    "distinct (map prefix (prefixes e)) \<longrightarrow> take (length (prefixes e)) (prefixes e1) = prefixes e"
    unfolding o1 p1 by (simp_all add: first_by_keeps_existing)
  have n: "\<exists>news. objects e1 = uniqueObjects (objects e) @ news \<and> set news \<subseteq> set objs"
    "\<exists>news. prefixes e1 = uniquePrefixes (prefixes e) @ news \<and> set news \<subseteq> set prefs"
  proof -
    show "\<exists>news. objects e1 = uniqueObjects (objects e) @ news \<and> set news \<subseteq> set objs"
      unfolding o1 uniqueObjects_first_by first_by_append
      by (intro exI [of _ "first_by key ({} \<union> key ` set (objects e)) objs"] conjI refl
          first_by_subset)
    show "\<exists>news. prefixes e1 = uniquePrefixes (prefixes e) @ news \<and> set news \<subseteq> set prefs"
      unfolding p1 uniquePrefixes_first_by first_by_append
      by (intro exI [of _ "first_by prefix ({} \<union> prefix ` set (prefixes e)) prefs"] conjI refl
          first_by_subset)
  qed
  have len: "length (objects e2) = length (objects e1)" "length (prefixes e2) = length (prefixes e1)"
    by (simp_all add: o2 p2)
  have pos: "\<forall>i<length (objects e). key (objects e ! i) \<notin> key ` set (take i (objects e)) \<longrightarrow>
        objects e1 ! card (key ` set (take i (objects e))) = objects e ! i"
    "\<forall>i<length (prefixes e).
        prefix (prefixes e ! i) \<notin> prefix ` set (take i (prefixes e)) \<longrightarrow>
        prefixes e1 ! card (prefix ` set (take i (prefixes e))) = prefixes e ! i"
    unfolding o1 p1 by (simp_all add: first_by_old_position)
  show ?thesis
    by (intro exI [of _ e1] exI [of _ e2] conjI l1 l2 len o2 p2 d k f n t pos)
qed

theorem append_idempotent_dedup_witness:
  "DAList.lookup (cache paged_cache) (getCacheKey ''bkt'' None) = Some paged_entry \<and>
   set (objects paged_entry) \<noteq> {} \<and> set (prefixes paged_entry) \<noteq> {} \<and>
   distinct (map key (objects paged_entry)) \<and> distinct (map prefix (prefixes paged_entry)) \<and>
   (\<exists>e1 e2.
     DAList.lookup (cache (S3Cache_append 1 paged_cache ''bkt'' [obj_a_again, obj_b]
                             [pfx_x, pfx_y] False None None)) (getCacheKey ''bkt'' None) = Some e1 \<and>
     DAList.lookup (cache (S3Cache_append 2 (S3Cache_append 1 paged_cache ''bkt''
                             [obj_a_again, obj_b] [pfx_x, pfx_y] False None None)
                             ''bkt'' [obj_a_again, obj_b] [pfx_x, pfx_y] False None None))
                   (getCacheKey ''bkt'' None) = Some e2 \<and>
     length (objects e2) = length (objects e1) \<and> length (prefixes e2) = length (prefixes e1) \<and>
     distinct (map key (objects e1)) \<and> distinct (map prefix (prefixes e1)) \<and>
     set (objects e1) \<noteq> {} \<and> set (prefixes e1) \<noteq> {} \<and>
     take (length (objects paged_entry)) (objects e1) = objects paged_entry \<and>
     take (length (prefixes paged_entry)) (prefixes e1) = prefixes paged_entry \<and>
     objects e1 ! 0 = obj_a)"
proof -
  have h: "DAList.lookup (cache paged_cache) (getCacheKey ''bkt'' None) = Some paged_entry"
    by (simp add: paged_cache_def paged_entry_def S3Cache_set_def new_S3Cache_def Let_def)
  have d: "distinct (map key (objects paged_entry))" "distinct (map prefix (prefixes paged_entry))"
    and n: "set (objects paged_entry) \<noteq> {}" "set (prefixes paged_entry) \<noteq> {}"
    by (simp_all add: paged_entry_def)
  from append_idempotent_dedup [OF h, where ?n1.0 = 1 and objs = "[obj_a_again, obj_b]"
      and prefs = "[pfx_x, pfx_y]" and ?t1.0 = False and ?k1.0 = None and ?n2.0 = 2
      and ?t2.0 = False and ?k2.0 = None]
  obtain e1 e2 where
    l1: "DAList.lookup (cache (S3Cache_append 1 paged_cache ''bkt'' [obj_a_again, obj_b]
                             [pfx_x, pfx_y] False None None)) (getCacheKey ''bkt'' None) = Some e1"
    and l2: "DAList.lookup (cache (S3Cache_append 2 (S3Cache_append 1 paged_cache ''bkt''
                             [obj_a_again, obj_b] [pfx_x, pfx_y] False None None)
                             ''bkt'' [obj_a_again, obj_b] [pfx_x, pfx_y] False None None))
                   (getCacheKey ''bkt'' None) = Some e2"
    and len: "length (objects e2) = length (objects e1)" "length (prefixes e2) = length (prefixes e1)"
    and dis: "distinct (map key (objects e1))" "distinct (map prefix (prefixes e1))"
    and tk: "distinct (map key (objects paged_entry)) \<longrightarrow>
               take (length (objects paged_entry)) (objects e1) = objects paged_entry"
      "distinct (map prefix (prefixes paged_entry)) \<longrightarrow>
               take (length (prefixes paged_entry)) (prefixes e1) = prefixes paged_entry"
    and ps: "\<forall>i<length (objects paged_entry).
               key (objects paged_entry ! i) \<notin> key ` set (take i (objects paged_entry)) \<longrightarrow>
               objects e1 ! card (key ` set (take i (objects paged_entry)))
                 = objects paged_entry ! i"
    by (elim exE conjE)
  have "0 < length (objects paged_entry)"
    "key (objects paged_entry ! 0) \<notin> key ` set (take 0 (objects paged_entry))"
    "objects paged_entry ! 0 = obj_a"
    by (simp_all add: paged_entry_def)
  with ps have first: "objects e1 ! 0 = obj_a"
    by (metis card.empty image_empty set_empty2 take_0)
  from tk d have tk': "take (length (objects paged_entry)) (objects e1) = objects paged_entry"
    "take (length (prefixes paged_entry)) (prefixes e1) = prefixes paged_entry"
    by simp_all
  from tk' n have ne: "set (objects e1) \<noteq> {}" "set (prefixes e1) \<noteq> {}"
    by (metis take_Nil set_empty)+
  have "\<exists>e1 e2.
     DAList.lookup (cache (S3Cache_append 1 paged_cache ''bkt'' [obj_a_again, obj_b]
                             [pfx_x, pfx_y] False None None)) (getCacheKey ''bkt'' None) = Some e1 \<and>
     DAList.lookup (cache (S3Cache_append 2 (S3Cache_append 1 paged_cache ''bkt''
                             [obj_a_again, obj_b] [pfx_x, pfx_y] False None None)
                             ''bkt'' [obj_a_again, obj_b] [pfx_x, pfx_y] False None None))
                   (getCacheKey ''bkt'' None) = Some e2 \<and>
     length (objects e2) = length (objects e1) \<and> length (prefixes e2) = length (prefixes e1) \<and>
     distinct (map key (objects e1)) \<and> distinct (map prefix (prefixes e1)) \<and>
     set (objects e1) \<noteq> {} \<and> set (prefixes e1) \<noteq> {} \<and>
     take (length (objects paged_entry)) (objects e1) = objects paged_entry \<and>
     take (length (prefixes paged_entry)) (prefixes e1) = prefixes paged_entry \<and>
     objects e1 ! 0 = obj_a"
    by (intro exI [of _ e1] exI [of _ e2] conjI l1 l2 len dis ne tk' first)
  with h d n show ?thesis by (intro conjI)
qed



text \<open>
  Claim C5, as stated: after every \<open>set\<close>, \<open>append\<close> and \<open>get\<close>, every entry
  has a continuation token iff it is truncated. The cache stores the two values as
  they are passed: \<open>set\<close> with \<open>isTruncated = false\<close> and a token gives an entry that
  breaks the invariant.
\<close>

theorem set_breaks_token_invariant:
  "\<not> cache_inv (S3Cache_set 0 (new_S3Cache DEFAULT_TTL) ''bkt'' [] [] False (Some ''tok'') None)"
  by (simp add: cache_inv_def S3Cache_set_def new_S3Cache_def Let_def DAList.update.rep_eq
      DAList.empty.rep_eq entry_inv_def)

text \<open>
  Claim C5, amended: the cache keeps the invariant when its callers do. If every entry
  of the cache has a token iff it is truncated, then so has every entry after a \<open>set\<close>
  or an \<open>append\<close> whose arguments have a token iff \<open>isTruncated\<close> is true, and
  after a \<open>get\<close>, which returns such an entry or none.
\<close>

theorem token_invariant_preserved:
  assumes "cache_inv s"
  shows "((tok \<noteq> None \<longleftrightarrow> trunc) \<longrightarrow>
            cache_inv (S3Cache_set now s b objs prefs trunc tok p) \<and>
            cache_inv (S3Cache_append now s b objs prefs trunc tok p))
       \<and> cache_inv (snd (S3Cache_get now s b p))
       \<and> (\<forall>e. fst (S3Cache_get now s b p) = Some e \<longrightarrow> entry_inv e)"
proof (intro conjI impI allI)
  assume "tok \<noteq> None \<longleftrightarrow> trunc"
  with assms show "cache_inv (S3Cache_set now s b objs prefs trunc tok p)"
    by (rule cache_inv_set)
next
  assume "tok \<noteq> None \<longleftrightarrow> trunc"
  with assms show "cache_inv (S3Cache_append now s b objs prefs trunc tok p)"
    by (rule cache_inv_append)
next
  from assms show "cache_inv (snd (S3Cache_get now s b p))"
    by (rule cache_inv_get)
next
  fix e
  assume "fst (S3Cache_get now s b p) = Some e"
  then have "DAList.lookup (cache s) (getCacheKey b p) = Some e"
    by (rule get_Some_lookup)
  with assms show "entry_inv e"
    by (rule cache_inv_lookup)
qed

theorem token_invariant_preserved_witness:
  "cache_inv empty_bucket_cache \<and>
   cache_inv (S3Cache_set 1 empty_bucket_cache ''bkt'' [obj_a] [] True (Some ''tok1'') None) \<and>
   cache_inv (S3Cache_append 1 empty_bucket_cache ''bkt'' [obj_a] [] True (Some ''tok1'') None) \<and>
   cache_inv (snd (S3Cache_get 1 empty_bucket_cache ''bkt'' None)) \<and>
   fst (S3Cache_get 1 empty_bucket_cache ''bkt'' None) = Some empty_entry \<and>
   entry_inv empty_entry"
proof -
  have inv: "cache_inv empty_bucket_cache"
    by (simp add: cache_inv_def empty_bucket_cache_def S3Cache_set_def new_S3Cache_def Let_def
        DAList.update.rep_eq DAList.empty.rep_eq entry_inv_def)
  have g: "fst (S3Cache_get 1 empty_bucket_cache ''bkt'' None) = Some empty_entry"
    by (simp add: S3Cache_get_def empty_bucket_cache_def empty_entry_def S3Cache_set_def
        new_S3Cache_def DEFAULT_TTL_def Let_def)
  note t = token_invariant_preserved [OF inv, where tok = "Some ''tok1''" and trunc = True
      and now = 1 and b = "''bkt''" and objs = "[obj_a]" and prefs = "[]" and p = None]
  from t have a: "cache_inv (S3Cache_set 1 empty_bucket_cache ''bkt'' [obj_a] [] True (Some ''tok1'') None)"
    and b: "cache_inv (S3Cache_append 1 empty_bucket_cache ''bkt'' [obj_a] [] True (Some ''tok1'') None)"
    and c: "cache_inv (snd (S3Cache_get 1 empty_bucket_cache ''bkt'' None))"
    and d: "\<forall>e. fst (S3Cache_get 1 empty_bucket_cache ''bkt'' None) = Some e \<longrightarrow> entry_inv e"
    by simp_all
  from d g have e: "entry_inv empty_entry" by blast
  from inv a b c g e show ?thesis by (intro conjI)
qed

section \<open>The node materializer\<close>

text \<open>
  Claim C6, as stated: the rendered nodes contain a load-more node iff the entry is
  truncated. The guard of the renderer is \<open>isTruncated && continuationToken\<close>: a
  truncated entry without a token, or with the empty string as token, renders no
  load-more node.
\<close>

theorem load_more_iff_truncated_counterexample:
  "\<not> (list_ex isLoadMoreNode (createNodesFromCache ''bkt'' truncated_no_token None)
        \<longleftrightarrow> isTruncated truncated_no_token) \<and>
   \<not> (list_ex isLoadMoreNode (createNodesFromCache ''bkt'' truncated_empty_token None)
        \<longleftrightarrow> isTruncated truncated_empty_token) \<and>
   createNodesFromCache ''bkt'' truncated_no_token None
     = [FolderNode ''bkt'' ''x/'', ObjectNode ''bkt'' ''a.txt'' 1 None]"
  by (simp add: createNodesFromCache_def truncated_no_token_def truncated_empty_token_def
      createPrefixNode_def createObjectNode_def obj_a_def pfx_x_def Let_def)

text \<open>
  Claim C6, amended: the nodes rendered from an entry (by either renderer) contain a
  load-more node iff the entry is truncated and its continuation token is present and
  not empty; there is at most one, it carries that token and the bucket and prefix
  rendered; an entry that is not truncated renders none, whatever its token.
\<close>

theorem load_more_iff_truncated_with_token:
  "(list_ex isLoadMoreNode (createNodesFromCache b e p)
      \<longleftrightarrow> isTruncated e \<and> truthy (continuationToken e)) \<and>
   (\<forall>n\<in>set (createNodesFromCache b e p).
      isLoadMoreNode n \<longrightarrow>
        (\<exists>t. continuationToken e = Some t \<and> t \<noteq> [] \<and> n = LoadMoreNode b p t)) \<and>
   length (filter isLoadMoreNode (createNodesFromCache b e p)) \<le> 1 \<and>
   (\<not> isTruncated e \<longrightarrow> \<not> list_ex isLoadMoreNode (createNodesFromCache b e p)) \<and>
   (list_ex isLoadMoreNode (createNodes b e p)
      \<longleftrightarrow> isTruncated e \<and> truthy (continuationToken e)) \<and>
   (\<forall>n\<in>set (createNodes b e p).
      isLoadMoreNode n \<longrightarrow>
        (\<exists>t. continuationToken e = Some t \<and> t \<noteq> [] \<and> n = LoadMoreNode b p t)) \<and>
   length (filter isLoadMoreNode (createNodes b e p)) \<le> 1 \<and>
   (\<not> isTruncated e \<longrightarrow> \<not> list_ex isLoadMoreNode (createNodes b e p))"
proof -
  have f: "filter isLoadMoreNode (createNodesFromCache b e p) =
        (if isTruncated e \<and> truthy (continuationToken e)
         then [LoadMoreNode b p (or_empty (continuationToken e))] else [])"
    "filter isLoadMoreNode (createNodes b e p) =
        (if isTruncated e \<and> truthy (continuationToken e)
         then [LoadMoreNode b p (or_empty (continuationToken e))] else [])"
    unfolding createNodesFromCache_eq createNodes_eq load_more_nodes
    by (simp_all add: createLoadMoreNode_def)
  have ex: "list_ex isLoadMoreNode ns \<longleftrightarrow> filter isLoadMoreNode ns \<noteq> []" for ns
    by (simp add: list_ex_iff filter_empty_conv)
  have mem: "n \<in> set ns \<and> isLoadMoreNode n \<longleftrightarrow> n \<in> set (filter isLoadMoreNode ns)" for n ns
    by auto
  have tk: "truthy t \<Longrightarrow> t = Some (or_empty t) \<and> or_empty t \<noteq> []" for t
    by (cases t) (simp_all add: truthy_def or_empty_def)
  show ?thesis
    using tk [of "continuationToken e"] mem [of _ "createNodesFromCache b e p"]
      mem [of _ "createNodes b e p"]
    unfolding ex f by (auto split: if_splits)
qed

theorem load_more_iff_truncated_with_token_witness:
  "isTruncated paged_entry \<and> truthy (continuationToken paged_entry) \<and>
   list_ex isLoadMoreNode (createNodesFromCache ''bkt'' paged_entry None) \<and>
   LoadMoreNode ''bkt'' None ''tok1'' \<in> set (createNodesFromCache ''bkt'' paged_entry None) \<and>
   isLoadMoreNode (LoadMoreNode ''bkt'' None ''tok1'') \<and>
   (\<exists>t. continuationToken paged_entry = Some t \<and> t \<noteq> [] \<and>
        LoadMoreNode ''bkt'' None ''tok1'' = LoadMoreNode ''bkt'' None t) \<and>
   LoadMoreNode ''bkt'' None ''tok1'' \<in> set (createNodes ''bkt'' paged_entry None) \<and>
   \<not> isTruncated complete_with_token \<and>
   \<not> list_ex isLoadMoreNode (createNodesFromCache ''bkt'' complete_with_token None) \<and>
   \<not> list_ex isLoadMoreNode (createNodes ''bkt'' complete_with_token None)"
proof -
  have t: "isTruncated paged_entry" "truthy (continuationToken paged_entry)"
    "\<not> isTruncated complete_with_token"
    by (simp_all add: paged_entry_def complete_with_token_def truthy_def)
  have m: "LoadMoreNode ''bkt'' None ''tok1'' \<in> set (createNodesFromCache ''bkt'' paged_entry None)"
    "LoadMoreNode ''bkt'' None ''tok1'' \<in> set (createNodes ''bkt'' paged_entry None)"
    by (simp_all add: createNodesFromCache_def createNodes_def paged_entry_def
        createLoadMoreNode_def Let_def)
  have i: "isLoadMoreNode (LoadMoreNode ''bkt'' None ''tok1'')" by simp
  note a = load_more_iff_truncated_with_token [of "''bkt''" paged_entry None]
  note c = load_more_iff_truncated_with_token [of "''bkt''" complete_with_token None]
  from a t have 1: "list_ex isLoadMoreNode (createNodesFromCache ''bkt'' paged_entry None)"
    by simp
  from a m(1) i have 2: "\<exists>t. continuationToken paged_entry = Some t \<and> t \<noteq> [] \<and>
        LoadMoreNode ''bkt'' None ''tok1'' = LoadMoreNode ''bkt'' None t"
    by blast
  from c t have 3: "\<not> list_ex isLoadMoreNode (createNodesFromCache ''bkt'' complete_with_token None)"
    "\<not> list_ex isLoadMoreNode (createNodes ''bkt'' complete_with_token None)"
    by simp_all
  from t m i 1 2 3 show ?thesis by (intro conjI)
qed

text \<open>
  Claim C7. The rendered sequence is the folders in entry order, then the objects in
  entry order, then the load-more node if there is one: an entry with
  \<open>prefixes = [p1, p2]\<close>, \<open>objects = [o1, o2]\<close>, \<open>isTruncated = true\<close> and
  \<open>continuationToken = "tok"\<close> renders exactly
  \<open>[Folder(p1), Folder(p2), Object(o1), Object(o2), LoadMore(tok)]\<close>, from the cache
  and fresh from the network.
\<close>

theorem createNodes_order:
  "createNodes b r p =
     map (\<lambda>q. FolderNode b (prefix q)) (prefixes r) @
     map (\<lambda>ob. ObjectNode b (key ob) (size_bytes ob) (lastModified ob)) (objects r) @
     (if isTruncated r \<and> truthy (continuationToken r)
      then [LoadMoreNode b p (or_empty (continuationToken r))] else []) \<and>
   createNodesFromCache b e p =
     map (\<lambda>q. FolderNode b (prefix q)) (prefixes e) @
     map (\<lambda>ob. ObjectNode b (key ob) (size_bytes ob) (lastModified ob)) (objects e) @
     (if isTruncated e \<and> truthy (continuationToken e)
      then [LoadMoreNode b p (or_empty (continuationToken e))] else []) \<and>
   createNodesFromCache b
     \<lparr>objects = [o1, o2], prefixes = [p1, p2], isTruncated = True,
      continuationToken = Some ''tok'', lastFetched = t\<rparr> p
   = [FolderNode b (prefix p1), FolderNode b (prefix p2),
      ObjectNode b (key o1) (size_bytes o1) (lastModified o1),
      ObjectNode b (key o2) (size_bytes o2) (lastModified o2),
      LoadMoreNode b p ''tok''] \<and>
   createNodes b
     \<lparr>objects = [o1, o2], prefixes = [p1, p2], isTruncated = True,
      continuationToken = Some ''tok''\<rparr> p
   = [FolderNode b (prefix p1), FolderNode b (prefix p2),
      ObjectNode b (key o1) (size_bytes o1) (lastModified o1),
      ObjectNode b (key o2) (size_bytes o2) (lastModified o2),
      LoadMoreNode b p ''tok'']"
  by (simp add: createNodes_eq createNodesFromCache_eq createPrefixNode_def createObjectNode_def
      createLoadMoreNode_def truthy_def or_empty_def)

text \<open>
  Claim C8. For a listing result and a cache entry with equal \<open>objects\<close>,
  \<open>prefixes\<close>, \<open>isTruncated\<close> and \<open>continuationToken\<close>, the renderer of fresh
  results and the renderer of cached entries give the same node sequence.
\<close>

theorem renderers_agree:
  fixes r :: ListObjectsResult and e :: CacheEntry
  assumes "objects r = objects e" and "prefixes r = prefixes e"
    and "isTruncated r = isTruncated e" and "continuationToken r = continuationToken e"
  shows "createNodes b r p = createNodesFromCache b e p"
  unfolding createNodes_eq createNodesFromCache_eq assms by (rule refl)

theorem renderers_agree_witness:
  "objects paged_listing = objects paged_entry \<and> prefixes paged_listing = prefixes paged_entry \<and>
   isTruncated paged_listing = isTruncated paged_entry \<and>
   continuationToken paged_listing = continuationToken paged_entry \<and>
   createNodes ''bkt'' paged_listing (Some ''a/'') = createNodesFromCache ''bkt'' paged_entry (Some ''a/'')"
proof -
  have h: "objects paged_listing = objects paged_entry" "prefixes paged_listing = prefixes paged_entry"
    "isTruncated paged_listing = isTruncated paged_entry"
    "continuationToken paged_listing = continuationToken paged_entry"
    by (simp_all add: paged_listing_def paged_entry_def)
  from h renderers_agree [OF h, of "''bkt''" "Some ''a/''"] show ?thesis by (intro conjI)
qed

section \<open>The read paths\<close>

text \<open>
  Claim C4, as stated: both consumers answer a request without continuation token
  from a fresh cache entry, without a \<open>listObjects\<close> call. The virtual filesystem
  does not: with a fresh entry for the bucket root in the cache, \<open>readDirectory\<close> of
  that root still issues the call.
\<close>

theorem readDirectory_bypasses_cache:
  "fst (S3Cache_get 1 (s3Cache fresh_world) ''bkt'' None) = Some empty_entry \<and>
   listCalls (snd (readDirectory empty_listing fresh_world (Inr (''bkt'', None))))
     = [(''bkt'', None, None)]"
  by (simp add: fresh_world_def empty_bucket_cache_def empty_entry_def empty_listing_def
      empty_result_def readDirectory_def S3Cache_get_def S3Cache_set_def new_S3Cache_def DEFAULT_TTL_def
      truthy_def Let_def)

text \<open>
  Claim C4, amended: the tree consumer consults the cache first. For a request without
  continuation token, \<open>getBucketContents\<close> and \<open>getPrefixContents\<close> return the nodes
  rendered from the fresh entry of the key, with no \<open>listObjects\<close> call and the
  cache as it was; on a miss they issue one call and, when it succeeds, store its
  result with \<open>set\<close> and return the nodes rendered from it. \<open>readDirectory\<close> of the
  virtual filesystem issues one \<open>listObjects\<close> call on every request and neither
  reads nor writes the cache.
\<close>

theorem tree_reads_consult_cache:
  "(fst (S3Cache_get now (s3Cache w) b None) = Some entry \<and> \<not> truthy tok \<longrightarrow>
      getBucketContents L now now' w b tok = (Inr (createNodesFromCache b entry None), w)) \<and>
   (fst (S3Cache_get now (s3Cache w) b None) = None \<and> \<not> truthy tok \<and>
    L b None tok = Inr result \<longrightarrow>
      getBucketContents L now now' w b tok =
        (Inr (createNodes b result None),
         w\<lparr>s3Cache := S3Cache_set now' (snd (S3Cache_get now (s3Cache w) b None)) b
                        (objects result) (prefixes result) (isTruncated result)
                        (continuationToken result) None,
           listCalls := listCalls w @ [(b, None, tok)]\<rparr>)) \<and>
   (fst (S3Cache_get now (s3Cache w) b (Some p)) = Some entry \<and> \<not> truthy tok \<longrightarrow>
      getPrefixContents L now now' w b p tok = (Inr (createNodesFromCache b entry (Some p)), w)) \<and>
   (fst (S3Cache_get now (s3Cache w) b (Some p)) = None \<and> \<not> truthy tok \<and>
    L b (Some p) tok = Inr result \<longrightarrow>
      getPrefixContents L now now' w b p tok =
        (Inr (createNodes b result (Some p)),
         w\<lparr>s3Cache := S3Cache_set now' (snd (S3Cache_get now (s3Cache w) b (Some p))) b
                        (objects result) (prefixes result) (isTruncated result)
                        (continuationToken result) (Some p),
           listCalls := listCalls w @ [(b, Some p, tok)]\<rparr>)) \<and>
   listCalls (snd (readDirectory L w (Inr (b, k))))
     = listCalls w @ [(b, if truthy k then k else None, None)] \<and>
   s3Cache (snd (readDirectory L w (Inr (b, k)))) = s3Cache w"
proof (intro conjI impI)
  assume a: "fst (S3Cache_get now (s3Cache w) b None) = Some entry \<and> \<not> truthy tok"
  then have "S3Cache_get now (s3Cache w) b None = (Some entry, s3Cache w)"
    using get_hit_unchanged [of now "s3Cache w" b None entry] by (simp add: prod_eq_iff)
  with a show "getBucketContents L now now' w b tok = (Inr (createNodesFromCache b entry None), w)"
    by (simp add: getBucketContents_def)
next
  assume a: "fst (S3Cache_get now (s3Cache w) b None) = None \<and> \<not> truthy tok \<and>
    L b None tok = Inr result"
  obtain c1 where c: "S3Cache_get now (s3Cache w) b None = (None, c1)"
    using a by (cases "S3Cache_get now (s3Cache w) b None") simp
  with a show "getBucketContents L now now' w b tok =
        (Inr (createNodes b result None),
         w\<lparr>s3Cache := S3Cache_set now' (snd (S3Cache_get now (s3Cache w) b None)) b
                        (objects result) (prefixes result) (isTruncated result)
                        (continuationToken result) None,
           listCalls := listCalls w @ [(b, None, tok)]\<rparr>)"
    by (simp add: getBucketContents_def Let_def)
next
  assume a: "fst (S3Cache_get now (s3Cache w) b (Some p)) = Some entry \<and> \<not> truthy tok"
  then have "S3Cache_get now (s3Cache w) b (Some p) = (Some entry, s3Cache w)"
    using get_hit_unchanged [of now "s3Cache w" b "Some p" entry] by (simp add: prod_eq_iff)
  with a show "getPrefixContents L now now' w b p tok
               = (Inr (createNodesFromCache b entry (Some p)), w)"
    by (simp add: getPrefixContents_def)
next
  assume a: "fst (S3Cache_get now (s3Cache w) b (Some p)) = None \<and> \<not> truthy tok \<and>
    L b (Some p) tok = Inr result"
  obtain c1 where c: "S3Cache_get now (s3Cache w) b (Some p) = (None, c1)"
    using a by (cases "S3Cache_get now (s3Cache w) b (Some p)") simp
  with a show "getPrefixContents L now now' w b p tok =
        (Inr (createNodes b result (Some p)),
         w\<lparr>s3Cache := S3Cache_set now' (snd (S3Cache_get now (s3Cache w) b (Some p))) b
                        (objects result) (prefixes result) (isTruncated result)
                        (continuationToken result) (Some p),
           listCalls := listCalls w @ [(b, Some p, tok)]\<rparr>)"
    by (simp add: getPrefixContents_def Let_def)
next
  show "listCalls (snd (readDirectory L w (Inr (b, k))))
     = listCalls w @ [(b, if truthy k then k else None, None)]"
    by (simp add: readDirectory_def Let_def split: sum.splits)
next
  show "s3Cache (snd (readDirectory L w (Inr (b, k)))) = s3Cache w"
    by (simp add: readDirectory_def Let_def split: sum.splits)
qed

theorem tree_reads_consult_cache_witness:
  "fst (S3Cache_get 1 (s3Cache fresh_world) ''bkt'' None) = Some empty_entry \<and>
   \<not> truthy None \<and>
   getBucketContents empty_listing 1 2 fresh_world ''bkt'' None
     = (Inr (createNodesFromCache ''bkt'' empty_entry None), fresh_world) \<and>
   fst (S3Cache_get 1 (s3Cache fresh_world) ''bkt'' (Some ''a/'')) = None \<and>
   empty_listing ''bkt'' (Some ''a/'') None = Inr empty_result \<and>
   listCalls (snd (getPrefixContents empty_listing 1 2 fresh_world ''bkt'' ''a/'' None))
     = [(''bkt'', Some ''a/'', None)] \<and>
   fst (S3Cache_get 1 (s3Cache folder_world) ''bkt'' (Some ''a/'')) = Some paged_entry \<and>
   getPrefixContents empty_listing 1 2 folder_world ''bkt'' ''a/'' None
     = (Inr (createNodesFromCache ''bkt'' paged_entry (Some ''a/'')), folder_world) \<and>
   fst (S3Cache_get 1 (s3Cache folder_world) ''bkt'' None) = None \<and>
   empty_listing ''bkt'' None None = Inr empty_result \<and>
   listCalls (snd (getBucketContents empty_listing 1 2 folder_world ''bkt'' None))
     = [(''bkt'', None, None)] \<and>
   listCalls (snd (readDirectory empty_listing fresh_world (Inr (''bkt'', None))))
     = [(''bkt'', None, None)]"
proof -
  have g: "fst (S3Cache_get 1 (s3Cache fresh_world) ''bkt'' None) = Some empty_entry"
    "fst (S3Cache_get 1 (s3Cache fresh_world) ''bkt'' (Some ''a/'')) = None"
    by (simp_all add: fresh_world_def empty_bucket_cache_def empty_entry_def S3Cache_get_def
        S3Cache_set_def new_S3Cache_def DEFAULT_TTL_def getCacheKey_def or_empty_def Let_def)
  have g': "fst (S3Cache_get 1 (s3Cache folder_world) ''bkt'' (Some ''a/'')) = Some paged_entry"
    "fst (S3Cache_get 1 (s3Cache folder_world) ''bkt'' None) = None"
    by (simp_all add: folder_world_def paged_entry_def S3Cache_get_def
        S3Cache_set_def new_S3Cache_def DEFAULT_TTL_def getCacheKey_def or_empty_def Let_def)
  have nt: "\<not> truthy None" by (simp add: truthy_def)
  have l: "empty_listing ''bkt'' (Some ''a/'') None = Inr empty_result"
    "empty_listing ''bkt'' None None = Inr empty_result"
    by (simp_all add: empty_listing_def)
  have lc: "listCalls fresh_world = []" "listCalls folder_world = []"
    by (simp_all add: fresh_world_def folder_world_def)
  note a = tree_reads_consult_cache [where now = 1 and w = fresh_world and b = "''bkt''"
      and entry = empty_entry and tok = None and L = empty_listing and now' = 2
      and p = "''a/''" and result = empty_result and k = None]
  note c = tree_reads_consult_cache [where now = 1 and w = folder_world and b = "''bkt''"
      and entry = paged_entry and tok = None and L = empty_listing and now' = 2
      and p = "''a/''" and result = empty_result and k = None]
  from a g(1) nt have 1: "getBucketContents empty_listing 1 2 fresh_world ''bkt'' None
     = (Inr (createNodesFromCache ''bkt'' empty_entry None), fresh_world)"
    by blast
  from a g(2) nt l(1) have "getPrefixContents empty_listing 1 2 fresh_world ''bkt'' ''a/'' None =
        (Inr (createNodes ''bkt'' empty_result (Some ''a/'')),
         fresh_world\<lparr>s3Cache := S3Cache_set 2 (snd (S3Cache_get 1 (s3Cache fresh_world) ''bkt'' (Some ''a/''))) ''bkt''
                        (objects empty_result) (prefixes empty_result) (isTruncated empty_result)
                        (continuationToken empty_result) (Some ''a/''),
           listCalls := listCalls fresh_world @ [(''bkt'', Some ''a/'', None)]\<rparr>)"
    by blast
  then have 2: "listCalls (snd (getPrefixContents empty_listing 1 2 fresh_world ''bkt'' ''a/'' None))
     = [(''bkt'', Some ''a/'', None)]"
    by (simp add: lc)
  from c g'(1) nt have 3: "getPrefixContents empty_listing 1 2 folder_world ''bkt'' ''a/'' None
     = (Inr (createNodesFromCache ''bkt'' paged_entry (Some ''a/'')), folder_world)"
    by blast
  from c g'(2) nt l(2) have "getBucketContents empty_listing 1 2 folder_world ''bkt'' None =
        (Inr (createNodes ''bkt'' empty_result None),
         folder_world\<lparr>s3Cache := S3Cache_set 2 (snd (S3Cache_get 1 (s3Cache folder_world) ''bkt'' None)) ''bkt''
                        (objects empty_result) (prefixes empty_result) (isTruncated empty_result)
                        (continuationToken empty_result) None,
           listCalls := listCalls folder_world @ [(''bkt'', None, None)]\<rparr>)"
    by blast
  then have 4: "listCalls (snd (getBucketContents empty_listing 1 2 folder_world ''bkt'' None))
     = [(''bkt'', None, None)]"
    by (simp add: lc)
  from a have 5: "listCalls (snd (readDirectory empty_listing fresh_world (Inr (''bkt'', None))))
     = [(''bkt'', None, None)]"
    by (simp add: lc truthy_def)
  from g g' nt l 1 2 3 4 5 show ?thesis by (intro conjI)
qed

text \<open>
  Claim C10. The entries \<open>readDirectory\<close> returns are the non-empty folder names of
  the listed prefixes followed by the names of the listed objects that are direct
  children. No entry has an empty name and no file name contains a slash; an object
  whose key is the requested prefix, an object whose relative name contains a slash,
  and a prefix whose name is empty after removing the parent prefix and the trailing
  slash add no entry.
\<close>

theorem readDirectory_direct_children:
  assumes "fst (readDirectory L w (Inr (b, k))) = Inr entries"
  shows "\<exists>result. L b (if truthy k then k else None) None = Inr result \<and>
     entries =
       map (\<lambda>q. (stripTrailingSlash (relativeName k (prefix q)), Directory))
         (filter (\<lambda>q. stripTrailingSlash (relativeName k (prefix q)) \<noteq> []) (prefixes result)) @
       map (\<lambda>ob. (relativeName k (key ob), File))
         (filter (\<lambda>ob. relativeName k (key ob) \<noteq> [] \<and>
                      CHR ''/'' \<notin> set (relativeName k (key ob))) (objects result)) \<and>
     (\<forall>e\<in>set entries. fst e \<noteq> []) \<and>
     (\<forall>e\<in>set entries. snd e = File \<longrightarrow> CHR ''/'' \<notin> set (fst e)) \<and>
     (\<forall>ob\<in>set (objects result). truthy k \<and> Some (key ob) = k \<longrightarrow>
        relativeName k (key ob) = [] \<and> (\<forall>acc. pushObjectEntry k acc ob = acc)) \<and>
     (\<forall>ob\<in>set (objects result). CHR ''/'' \<in> set (relativeName k (key ob)) \<longrightarrow>
        (\<forall>acc. pushObjectEntry k acc ob = acc)) \<and>
     (\<forall>q\<in>set (prefixes result). stripTrailingSlash (relativeName k (prefix q)) = [] \<longrightarrow>
        (\<forall>acc. pushPrefixEntry k acc q = acc))"
proof -
  from readDirectory_entries [OF assms] obtain result where
    r: "L b (if truthy k then k else None) None = Inr result"
    and e: "entries =
       map (\<lambda>q. (stripTrailingSlash (relativeName k (prefix q)), Directory))
         (filter (\<lambda>q. stripTrailingSlash (relativeName k (prefix q)) \<noteq> []) (prefixes result)) @
       map (\<lambda>ob. (relativeName k (key ob), File))
         (filter (\<lambda>ob. relativeName k (key ob) \<noteq> [] \<and>
                      CHR ''/'' \<notin> set (relativeName k (key ob))) (objects result))"
    by blast
  have n: "\<forall>e\<in>set entries. fst e \<noteq> []"
    unfolding e by auto
  have s: "\<forall>e\<in>set entries. snd e = File \<longrightarrow> CHR ''/'' \<notin> set (fst e)"
    unfolding e by auto
  have m: "\<forall>ob\<in>set (objects result). truthy k \<and> Some (key ob) = k \<longrightarrow>
        relativeName k (key ob) = [] \<and> (\<forall>acc. pushObjectEntry k acc ob = acc)"
    by (simp add: relativeName_marker pushObjectEntry_def Let_def)
  have d: "\<forall>ob\<in>set (objects result). CHR ''/'' \<in> set (relativeName k (key ob)) \<longrightarrow>
        (\<forall>acc. pushObjectEntry k acc ob = acc)"
    by (simp add: pushObjectEntry_def Let_def)
  have p: "\<forall>q\<in>set (prefixes result). stripTrailingSlash (relativeName k (prefix q)) = [] \<longrightarrow>
        (\<forall>acc. pushPrefixEntry k acc q = acc)"
    by (simp add: pushPrefixEntry_def Let_def)
  from r e n s m d p show ?thesis by blast
qed

theorem readDirectory_direct_children_witness:
  "fst (readDirectory docs_listing fresh_world (Inr (''bkt'', Some ''docs/'')))
     = Inr [(''sub'', Directory), (''a.txt'', File)] \<and>
   fst (''sub'', Directory) \<noteq> [] \<and> fst (''a.txt'', File) \<noteq> [] \<and>
   CHR ''/'' \<notin> set (fst (''a.txt'', File)) \<and>
   truthy (Some ''docs/'') \<and> Some (key marker_object) = Some ''docs/'' \<and>
   pushObjectEntry (Some ''docs/'') [] marker_object = [] \<and>
   CHR ''/'' \<in> set (relativeName (Some ''docs/'') (key nested_object)) \<and>
   pushObjectEntry (Some ''docs/'') [] nested_object = [] \<and>
   stripTrailingSlash (relativeName (Some ''docs/'') (prefix \<lparr>prefix = ''docs/''\<rparr>)) = [] \<and>
   pushPrefixEntry (Some ''docs/'') [] \<lparr>prefix = ''docs/''\<rparr> = []"
proof -
  have h: "fst (readDirectory docs_listing fresh_world (Inr (''bkt'', Some ''docs/'')))
     = Inr [(''sub'', Directory), (''a.txt'', File)]"
    by (simp add: readDirectory_def docs_listing_def docs_result_def marker_object_def
        child_object_def nested_object_def pushPrefixEntry_def pushObjectEntry_def
        relativeName_def stripTrailingSlash_def endsWith_def truthy_def or_empty_def Let_def)
  have f: "truthy (Some ''docs/'')" "Some (key marker_object) = Some ''docs/''"
    "CHR ''/'' \<in> set (relativeName (Some ''docs/'') (key nested_object))"
    "stripTrailingSlash (relativeName (Some ''docs/'') (prefix \<lparr>prefix = ''docs/''\<rparr>)) = []"
    by (simp_all add: marker_object_def nested_object_def relativeName_def stripTrailingSlash_def
        endsWith_def truthy_def or_empty_def)
  have mem: "marker_object \<in> set (objects docs_result)" "nested_object \<in> set (objects docs_result)"
    "\<lparr>prefix = ''docs/''\<rparr> \<in> set (prefixes docs_result)"
    by (simp_all add: docs_result_def)
  from readDirectory_direct_children [OF h] obtain result where
    r: "docs_listing ''bkt'' (if truthy (Some ''docs/'') then Some ''docs/'' else None) None
          = Inr result"
    and n: "\<forall>e\<in>set [(''sub'', Directory), (''a.txt'', File)]. fst e \<noteq> []"
    and s: "\<forall>e\<in>set [(''sub'', Directory), (''a.txt'', File)].
              snd e = File \<longrightarrow> CHR ''/'' \<notin> set (fst e)"
    and m: "\<forall>ob\<in>set (objects result). truthy (Some ''docs/'') \<and> Some (key ob) = Some ''docs/'' \<longrightarrow>
        relativeName (Some ''docs/'') (key ob) = [] \<and>
        (\<forall>acc. pushObjectEntry (Some ''docs/'') acc ob = acc)"
    and d: "\<forall>ob\<in>set (objects result).
        CHR ''/'' \<in> set (relativeName (Some ''docs/'') (key ob)) \<longrightarrow>
        (\<forall>acc. pushObjectEntry (Some ''docs/'') acc ob = acc)"
    and p: "\<forall>q\<in>set (prefixes result).
        stripTrailingSlash (relativeName (Some ''docs/'') (prefix q)) = [] \<longrightarrow>
        (\<forall>acc. pushPrefixEntry (Some ''docs/'') acc q = acc)"
    by (elim exE conjE)
  from r have res: "result = docs_result"
    by (simp add: docs_listing_def)
  from m mem(1) f(1,2) have 1: "pushObjectEntry (Some ''docs/'') [] marker_object = []"
    unfolding res by blast
  from d mem(2) f(3) have 2: "pushObjectEntry (Some ''docs/'') [] nested_object = []"
    unfolding res by blast
  from p mem(3) f(4) have 3: "pushPrefixEntry (Some ''docs/'') [] \<lparr>prefix = ''docs/''\<rparr> = []"
    unfolding res by blast
  from n have 4: "fst (''sub'', Directory) \<noteq> []" "fst (''a.txt'', File) \<noteq> []"
    by simp_all
  from s have 5: "CHR ''/'' \<notin> set (fst (''a.txt'', File))"
    by simp
  from h 4 5 f 1 2 3 show ?thesis by (intro conjI)
qed

end
